theory Spec2Isabelle
  imports Main
begin

section \<open>Data model of \<open>resource_pool.h\<close>\<close>

text \<open>
  A handle is a \<open>std::shared_ptr<resource>\<close>: either \<open>nullptr\<close> or the address of a
  \<open>resource\<close> object.  The objects live in a store shared by every pool and every
  holder of a handle, because \<open>release\<close> writes the \<open>inUse\<close> flag through the handle
  it is given while the pool reads the same flag through its slot table.  The store is a
  list, the address of an object is its index, and \<open>std::make_shared\<close> appends.
\<close>

type_synonym addr = nat

type_synonym handle = "addr option"

record 't resource =
  pool :: nat
  raw_resource :: 't
  inUse :: bool

type_synonym 't heap = "'t resource list"

text \<open>
  The members of \<open>resource_pool<T>\<close>; the member \<open>size\<close> is \<open>pool_size\<close> here,
  \<open>size\<close> being a constant of HOL.  \<open>self\<close> stands for \<open>this\<close>, the identity
  that \<open>acquire\<close> stores in the back reference \<open>pool\<close> of every resource it makes.
  The factory \<open>fn_new\<close> is an arbitrary \<open>std::function<T(void)>\<close>: it may have state
  and it may throw, so it is a function from the number of earlier invocations to the
  outcome of the next one, \<open>None\<close> for a thrown exception.  \<open>fn_new_calls\<close> is a ghost
  counter of the invocations made so far.  \<open>lock\<close> and \<open>condition\<close> carry no data: each
  critical section is one atomic function of the model.
\<close>

record 't resource_pool =
  self :: nat
  resources :: "handle list"
  pool_size :: nat
  fn_new :: "nat \<Rightarrow> 't option"
  haveResources :: int
  stop :: bool
  fn_new_calls :: nat

text \<open>The largest value of the 32-bit \<open>int\<close> that holds \<open>haveResources\<close> and the loop counters.\<close>

definition INT_MAX :: nat where
  "INT_MAX = 2147483647"

section \<open>Construction\<close>

text \<open>
  The constructor's loop \<open>for (int i = 0; i < size; i++) resources.push_back(nullptr)\<close>.
\<close>

function push_nulls :: "nat \<Rightarrow> nat \<Rightarrow> handle list \<Rightarrow> handle list" where
  "push_nulls i n rs = (if i < n then push_nulls (Suc i) n (rs @ [None]) else rs)"
  by pat_completeness auto
termination
  by (relation "measure (\<lambda>(i, n, rs). n - i)") auto

declare push_nulls.simps [simp del]

text \<open>
  \<open>size(std::max<size_t>(size_, 1))\<close>, then \<open>haveResources(size)\<close> (members are
  initialised in declaration order, so \<open>size\<close> is already the clamped value), then the
  loop.  The loop counter is an \<open>int\<close> compared with a \<open>size_t\<close>: for a clamped size
  above \<open>INT_MAX\<close> the increment of \<open>i\<close> overflows, which C++ leaves undefined, and the
  conversion of \<open>size\<close> to \<open>int\<close> no longer keeps its value.  The constructor has no
  result there (\<open>None\<close>).
\<close>

definition new_pool :: "nat \<Rightarrow> nat \<Rightarrow> (nat \<Rightarrow> 't option) \<Rightarrow> 't resource_pool option" where
  "new_pool this size0 new_fn =
     (let sz = max size0 1 in
      if INT_MAX < sz then None
      else Some \<lparr> self = this,
                  resources = push_nulls 0 sz [],
                  pool_size = sz,
                  fn_new = new_fn,
                  haveResources = int sz,
                  stop = False,
                  fn_new_calls = 0 \<rparr>)"

section \<open>acquire\<close>

text \<open>
  The scan \<open>for (int i = 0; i < resources.size(); i++)\<close> of \<open>acquire\<close>, from index
  \<open>i\<close> on: it stops at the first slot that is \<open>nullptr\<close> (\<open>Create\<close>) or whose resource
  is not in use (\<open>Reuse\<close>), and falls through when there is none (\<open>NotFound\<close>).
\<close>

datatype scan_result = Create nat | Reuse nat addr | NotFound

function scan :: "'t heap \<Rightarrow> handle list \<Rightarrow> nat \<Rightarrow> scan_result" where
  "scan h rs i =
     (if i < length rs then
        (case rs ! i of
           None \<Rightarrow> Create i
         | Some a \<Rightarrow> if \<not> inUse (h ! a) then Reuse i a else scan h rs (Suc i))
      else NotFound)"
  by pat_completeness auto
termination
  by (relation "measure (\<lambda>(h, rs, i). length rs - i)") auto

declare scan.simps [simp del]

text \<open>
  What a call of \<open>acquire\<close> does: it returns a handle, it stays suspended in
  \<open>condition.wait\<close> (no other thread runs inside one call of the model), or the factory's
  exception leaves it.
\<close>

datatype 't outcome =
    Returned handle "'t resource_pool" "'t heap"
  | Blocked
  | Threw "'t resource_pool" "'t heap"

text \<open>
  Lines 76 to 100: the wait on \<open>haveResources > 0 || stop\<close>, the second test of
  \<open>stop\<close>, the scan, and the decrement, which is executed on every path that leaves the
  loop normally, also when the scan found nothing and \<open>availableResource\<close> is still
  \<open>nullptr\<close>.  When \<open>fn_new()\<close> throws, nothing has been written yet.
\<close>

definition acquire_locked :: "'t resource_pool \<Rightarrow> 't heap \<Rightarrow> 't outcome" where
  "acquire_locked p h =
     (if \<not> (0 < haveResources p \<or> stop p) then Blocked
      else if stop p then Returned None p h
      else
        (case scan h (resources p) 0 of
           Create i \<Rightarrow>
             (case fn_new p (fn_new_calls p) of
                None \<Rightarrow> Threw (p\<lparr>fn_new_calls := Suc (fn_new_calls p)\<rparr>) h
              | Some v \<Rightarrow>
                  Returned (Some (length h))
                    (p\<lparr>resources := (resources p)[i := Some (length h)],
                       haveResources := haveResources p - 1,
                       fn_new_calls := Suc (fn_new_calls p)\<rparr>)
                    (h @ [\<lparr>pool = self p, raw_resource = v, inUse = True\<rparr>]))
         | Reuse i a \<Rightarrow>
             Returned (Some a)
               (p\<lparr>haveResources := haveResources p - 1\<rparr>)
               (h[a := (h ! a)\<lparr>inUse := True\<rparr>])
         | NotFound \<Rightarrow>
             Returned None (p\<lparr>haveResources := haveResources p - 1\<rparr>) h))"

text \<open>Lines 68 to 74 first: a stopped pool answers \<open>nullptr\<close> before any wait.\<close>

definition acquire :: "'t resource_pool \<Rightarrow> 't heap \<Rightarrow> 't outcome" where
  "acquire p h = (if stop p then Returned None p h else acquire_locked p h)"

section \<open>release, resourcesAvailable, shutdown\<close>

text \<open>
  \<open>release\<close> tests the handle and the flag behind it, and nothing else: the back
  reference \<open>pool\<close> of the resource is never read.  \<open>haveResources\<close> is an
  \<open>int\<close> of C++ and an integer here: in the states that admissible calls reach it
  stays between 0 and the capacity, which is at most \<open>INT_MAX\<close>, so that the
  increment and the decrement are exact there.
\<close>

definition release :: "handle \<Rightarrow> 't resource_pool \<Rightarrow> 't heap \<Rightarrow> 't resource_pool \<times> 't heap" where
  "release raw p h =
     (case raw of
        None \<Rightarrow> (p, h)
      | Some a \<Rightarrow>
          if \<not> inUse (h ! a) then (p, h)
          else (p\<lparr>haveResources := haveResources p + 1\<rparr>, h[a := (h ! a)\<lparr>inUse := False\<rparr>]))"

definition resourcesAvailable :: "'t resource_pool \<Rightarrow> int" where
  "resourcesAvailable p = haveResources p"

definition shutdown :: "'t resource_pool \<Rightarrow> 't resource_pool" where
  "shutdown p = p\<lparr>stop := True\<rparr>"

section \<open>Sequences of calls on one pool\<close>

text \<open>
  Every write of the pool happens under its lock, so an execution by any number of threads
  is a sequence of completed critical sections.  A system is the pool, the store and the
  handles that \<open>acquire\<close> has returned so far.  A call of \<open>acquire\<close> that is suspended
  has written nothing; when it goes on later it is the \<open>Acquire\<close> at that later point.
\<close>

datatype op = Acquire | Release handle | Shutdown

record 't system =
  pl :: "'t resource_pool"
  hp :: "'t heap"
  handed :: "handle list"

definition initial :: "'t resource_pool \<Rightarrow> 't system" where
  "initial p = \<lparr> pl = p, hp = [], handed = [] \<rparr>"

fun step :: "op \<Rightarrow> 't system \<Rightarrow> 't system" where
  "step Acquire c =
     (case acquire (pl c) (hp c) of
        Returned r p' h' \<Rightarrow> \<lparr> pl = p', hp = h', handed = r # handed c \<rparr>
      | Blocked \<Rightarrow> c
      | Threw p' h' \<Rightarrow> \<lparr> pl = p', hp = h', handed = handed c \<rparr>)"
| "step (Release r) c =
     (case release r (pl c) (hp c) of
        (p', h') \<Rightarrow> \<lparr> pl = p', hp = h', handed = handed c \<rparr>)"
| "step Shutdown c = \<lparr> pl = shutdown (pl c), hp = hp c, handed = handed c \<rparr>"

fun run :: "op list \<Rightarrow> 't system \<Rightarrow> 't system" where
  "run [] c = c"
| "run (x # xs) c = run xs (step x c)"

text \<open>A sequence is admissible when each released handle was returned by an earlier \<open>acquire\<close>.\<close>

fun allowed :: "op \<Rightarrow> 't system \<Rightarrow> bool" where
  "allowed (Release r) c = (r \<in> set (handed c))"
| "allowed Acquire c = True"
| "allowed Shutdown c = True"

fun admissible :: "op list \<Rightarrow> 't system \<Rightarrow> bool" where
  "admissible [] c = True"
| "admissible (x # xs) c = (allowed x c \<and> admissible xs (step x c))"

text \<open>A slot is free when it is empty or its resource is not in use.\<close>

definition slot_free :: "'t heap \<Rightarrow> handle \<Rightarrow> bool" where
  "slot_free h s = (case s of None \<Rightarrow> True | Some a \<Rightarrow> \<not> inUse (h ! a))"

definition free_count :: "'t heap \<Rightarrow> handle list \<Rightarrow> nat" where
  "free_count h rs = length (filter (slot_free h) rs)"

section \<open>Invariant of the pool\<close>

text \<open>
  What every state reached by admissible calls satisfies: each slot's address is in the
  store, no two slots share a resource, \<open>haveResources\<close> is the number of free slots,
  and every handle given out is a slot of this pool.
\<close>

definition consistent :: "'t resource_pool \<Rightarrow> 't heap \<Rightarrow> handle list \<Rightarrow> bool" where
  "consistent p h hs \<longleftrightarrow>
     (\<forall>a. Some a \<in> set (resources p) \<longrightarrow> a < length h) \<and>
     (\<forall>i j a. i < length (resources p) \<and> j < length (resources p) \<and>
        resources p ! i = Some a \<and> resources p ! j = Some a \<longrightarrow> i = j) \<and>
     haveResources p = int (free_count h (resources p)) \<and>
     (\<forall>a. Some a \<in> set hs \<longrightarrow> Some a \<in> set (resources p))"

definition sys_ok :: "'t system \<Rightarrow> bool" where
  "sys_ok c = consistent (pl c) (hp c) (handed c)"

text \<open>
  The number of the first \<open>m\<close> factory invocations that returned an instance, and the
  number of slots that hold one.
\<close>

definition constructed :: "(nat \<Rightarrow> 't option) \<Rightarrow> nat \<Rightarrow> nat" where
  "constructed f m = length (filter (\<lambda>k. f k \<noteq> None) [0..<m])"

definition instantiated :: "handle list \<Rightarrow> nat" where
  "instantiated rs = length (filter (\<lambda>s. s \<noteq> None) rs)"

text \<open>The instances a pool holds are the ones its factory has returned.\<close>

definition built_ok :: "'t system \<Rightarrow> bool" where
  "built_ok c \<longleftrightarrow>
     constructed (fn_new (pl c)) (fn_new_calls (pl c)) = instantiated (resources (pl c))"

section \<open>Pools and factories used in examples\<close>

text \<open>
  \<open>resource_factory_function\<close> is the factory of \<open>test.cpp\<close>: it returns an empty struct
  on every call.  \<open>throwing_factory\<close> throws on every call.
\<close>

definition resource_factory_function :: "nat \<Rightarrow> unit option" where
  "resource_factory_function k = Some ()"

definition throwing_factory :: "nat \<Rightarrow> unit option" where
  "throwing_factory k = None"

text \<open>
  The pool of \<open>test.cpp\<close>, \<open>resource_pool<resource> pool(POOL_SIZE, resource_factory_function)\<close>,
  as the constructor leaves it.
\<close>

definition POOL_SIZE :: nat where
  "POOL_SIZE = 3"

definition test_pool :: "unit resource_pool" where
  "test_pool = \<lparr> self = 0, resources = [None, None, None], pool_size = 3,
       fn_new = resource_factory_function, haveResources = 3, stop = False, fn_new_calls = 0 \<rparr>"

text \<open>A pool of capacity 1 whose factory throws, as the constructor leaves it.\<close>

definition throwing_pool :: "unit resource_pool" where
  "throwing_pool = \<lparr> self = 0, resources = [None], pool_size = 1,
       fn_new = throwing_factory, haveResources = 1, stop = False, fn_new_calls = 0 \<rparr>"

text \<open>A second pool of the same kind, with an identity of its own.\<close>

definition other_pool :: "unit resource_pool" where
  "other_pool = \<lparr> self = 1, resources = [None, None, None], pool_size = 3,
       fn_new = resource_factory_function, haveResources = 3, stop = False, fn_new_calls = 0 \<rparr>"

section \<open>The two loops\<close>

lemma push_nulls_replicate: "push_nulls i n rs = rs @ replicate (n - i) None"
proof (induction i n rs rule: push_nulls.induct)
  case (1 i n rs)
  show ?case
  proof (cases "i < n")
    case True
    then have "n - i = Suc (n - Suc i)" by simp
    with True "1" show ?thesis
      by (subst push_nulls.simps) simp
  next
    case False
    then show ?thesis by (subst push_nulls.simps) simp
  qed
qed

lemma scan_Create:
  "scan h rs i = Create j \<Longrightarrow>
     i \<le> j \<and> j < length rs \<and> rs ! j = None \<and> (\<forall>k. i \<le> k \<and> k < j \<longrightarrow> \<not> slot_free h (rs ! k))"
proof (induction h rs i rule: scan.induct)
  case (1 h rs i)
  from "1.prems" have lt: "i < length rs"
    by (subst (asm) scan.simps) (simp split: if_splits)
  show ?case
  proof (cases "rs ! i")
    case None
    with lt "1.prems" show ?thesis
      by (subst (asm) scan.simps) auto
  next
    case (Some a)
    with lt "1.prems" have used: "inUse (h ! a)" and rec: "scan h rs (Suc i) = Create j"
      by (subst (asm) scan.simps, simp split: if_splits)+
    from "1.IH" [OF lt Some _ rec] used
    have ih: "Suc i \<le> j \<and> j < length rs \<and> rs ! j = None \<and>
        (\<forall>k. Suc i \<le> k \<and> k < j \<longrightarrow> \<not> slot_free h (rs ! k))"
      by simp
    have "\<not> slot_free h (rs ! i)"
      using Some used by (simp add: slot_free_def)
    with ih show ?thesis
      by (metis Suc_leI le_neq_implies_less Suc_leD)
  qed
qed

lemma scan_Reuse:
  "scan h rs i = Reuse j a \<Longrightarrow>
     i \<le> j \<and> j < length rs \<and> rs ! j = Some a \<and> \<not> inUse (h ! a) \<and>
     (\<forall>k. i \<le> k \<and> k < j \<longrightarrow> \<not> slot_free h (rs ! k))"
proof (induction h rs i rule: scan.induct)
  case (1 h rs i)
  from "1.prems" have lt: "i < length rs"
    by (subst (asm) scan.simps) (simp split: if_splits)
  from lt "1.prems" obtain b where Some: "rs ! i = Some b"
    by (subst (asm) scan.simps) (auto split: option.splits)
  show ?case
  proof (cases "inUse (h ! b)")
    case False
    with lt Some "1.prems" show ?thesis
      by (subst (asm) scan.simps) auto
  next
    case True
    with lt Some "1.prems" have rec: "scan h rs (Suc i) = Reuse j a"
      by (subst (asm) scan.simps) simp
    from "1.IH" [OF lt Some _ rec] True
    have ih: "Suc i \<le> j \<and> j < length rs \<and> rs ! j = Some a \<and> \<not> inUse (h ! a) \<and>
        (\<forall>k. Suc i \<le> k \<and> k < j \<longrightarrow> \<not> slot_free h (rs ! k))"
      by simp
    have "\<not> slot_free h (rs ! i)"
      using Some True by (simp add: slot_free_def)
    with ih show ?thesis
      by (metis Suc_leI le_neq_implies_less Suc_leD)
  qed
qed

lemma scan_NotFound:
  "scan h rs i = NotFound \<Longrightarrow> (\<forall>k. i \<le> k \<and> k < length rs \<longrightarrow> \<not> slot_free h (rs ! k))"
proof (induction h rs i rule: scan.induct)
  case (1 h rs i)
  show ?case
  proof (cases "i < length rs")
    case False
    then show ?thesis by auto
  next
    case lt: True
    from lt "1.prems" obtain b where Some: "rs ! i = Some b"
      by (subst (asm) scan.simps) (auto split: option.splits)
    from lt Some "1.prems" have used: "inUse (h ! b)" and rec: "scan h rs (Suc i) = NotFound"
      by (subst (asm) scan.simps, simp split: if_splits)+
    from "1.IH" [OF lt Some _ rec] used
    have ih: "\<forall>k. Suc i \<le> k \<and> k < length rs \<longrightarrow> \<not> slot_free h (rs ! k)"
      by simp
    have "\<not> slot_free h (rs ! i)"
      using Some used by (simp add: slot_free_def)
    with ih show ?thesis
      by (metis Suc_leI le_neq_implies_less)
  qed
qed


section \<open>Preservation of the invariant\<close>


lemma free_count_card: "free_count h rs = card {i. i < length rs \<and> slot_free h (rs ! i)}"
  by (simp add: free_count_def length_filter_conv_card)

lemma free_count_le: "free_count h rs \<le> length rs"
  by (simp add: free_count_def)

lemma free_count_pos: "0 < free_count h rs \<Longrightarrow> \<exists>k < length rs. slot_free h (rs ! k)"
proof -
  assume "0 < free_count h rs"
  then have "filter (slot_free h) rs \<noteq> []" by (simp add: free_count_def)
  then obtain s where "s \<in> set rs" "slot_free h s"
    by (metis filter_False)
  then show ?thesis by (auto simp: in_set_conv_nth)
qed

lemma claim_count:
  assumes i: "i < length rs" and free: "slot_free h (rs ! i)"
    and len: "length rs' = length rs" and used: "\<not> slot_free h' (rs' ! i)"
    and others: "\<forall>k. k < length rs \<and> k \<noteq> i \<longrightarrow> slot_free h' (rs' ! k) = slot_free h (rs ! k)"
  shows "int (free_count h' rs') = int (free_count h rs) - 1"
proof -
  let ?A = "{k. k < length rs \<and> slot_free h (rs ! k)}"
  let ?B = "{k. k < length rs' \<and> slot_free h' (rs' ! k)}"
  have fin: "finite ?A" by simp
  have mem: "i \<in> ?A" using i free by simp
  have "?B = ?A - {i}" using len used others by auto
  then have "card ?B = card ?A - 1" using fin mem by simp
  moreover have "0 < card ?A" using fin mem by (auto simp: card_gt_0_iff)
  ultimately show ?thesis by (simp add: free_count_card)
qed


lemma slot_free_append:
  "\<forall>a. s = Some a \<longrightarrow> a < length h \<Longrightarrow> slot_free (h @ xs) s = slot_free h s"
  by (cases s) (simp_all add: slot_free_def nth_append)

lemma consistent_create:
  assumes c: "consistent p h hs" and sc: "scan h (resources p) 0 = Create i"
  shows "consistent
           (p\<lparr>resources := (resources p)[i := Some (length h)],
              haveResources := haveResources p - 1, fn_new_calls := n\<rparr>)
           (h @ [\<lparr>pool = s, raw_resource = v, inUse = True\<rparr>])
           (Some (length h) # hs)"
proof -
  let ?rs = "resources p"
  let ?rs' = "?rs[i := Some (length h)]"
  let ?h' = "h @ [\<lparr>pool = s, raw_resource = v, inUse = True\<rparr>]"
  from scan_Create [OF sc] have i: "i < length ?rs" and empty: "?rs ! i = None" by simp_all
  from c have bound: "\<And>a. Some a \<in> set ?rs \<Longrightarrow> a < length h"
    and inj: "\<And>k j a. k < length ?rs \<Longrightarrow> j < length ?rs \<Longrightarrow> ?rs ! k = Some a \<Longrightarrow> ?rs ! j = Some a \<Longrightarrow> k = j"
    and cnt: "haveResources p = int (free_count h ?rs)"
    and own: "\<And>a. Some a \<in> set hs \<Longrightarrow> Some a \<in> set ?rs"
    by (auto simp: consistent_def)
  have fresh: "\<And>k. k < length ?rs \<Longrightarrow> ?rs ! k \<noteq> Some (length h)"
    using bound by (metis nth_mem less_irrefl)
  have b': "\<forall>a. Some a \<in> set ?rs' \<longrightarrow> a < length ?h'"
  proof (intro allI impI)
    fix a assume "Some a \<in> set ?rs'"
    then have "Some a \<in> insert (Some (length h)) (set ?rs)"
      using set_update_subset_insert by fastforce
    then show "a < length ?h'" using bound by (auto simp: less_Suc_eq)
  qed
  have inj': "\<forall>k j a. k < length ?rs' \<and> j < length ?rs' \<and> ?rs' ! k = Some a \<and> ?rs' ! j = Some a \<longrightarrow> k = j"
  proof (intro allI impI, elim conjE)
    fix k j a
    assume k: "k < length ?rs'" and j: "j < length ?rs'"
      and rk: "?rs' ! k = Some a" and rj: "?rs' ! j = Some a"
    show "k = j"
    proof (cases "k = i")
      case True
      with rk i have a: "a = length h" by simp
      show ?thesis
      proof (rule ccontr)
        assume "k \<noteq> j"
        with True rj have "?rs ! j = Some (length h)" using a by simp
        with fresh j show False by simp
      qed
    next
      case False
      with rk have rk': "?rs ! k = Some a" by simp
      show ?thesis
      proof (cases "j = i")
        case True
        with rj i have "a = length h" by simp
        with rk' fresh k show ?thesis by simp
      next
        case False
        with rj have "?rs ! j = Some a" by simp
        with rk' k j show ?thesis using inj by simp
      qed
    qed
  qed
  have cnt': "int (free_count ?h' ?rs') = int (free_count h ?rs) - 1"
  proof (rule claim_count [OF i])
    show "slot_free h (?rs ! i)" using empty by (simp add: slot_free_def)
    show "length ?rs' = length ?rs" by simp
    show "\<not> slot_free ?h' (?rs' ! i)" using i by (simp add: slot_free_def)
    show "\<forall>k. k < length ?rs \<and> k \<noteq> i \<longrightarrow> slot_free ?h' (?rs' ! k) = slot_free h (?rs ! k)"
    proof (intro allI impI, elim conjE)
      fix k assume k: "k < length ?rs" and "k \<noteq> i"
      then have "?rs' ! k = ?rs ! k" by simp
      moreover have "\<forall>a. ?rs ! k = Some a \<longrightarrow> a < length h"
        using bound k by (metis nth_mem)
      ultimately show "slot_free ?h' (?rs' ! k) = slot_free h (?rs ! k)"
        by (simp add: slot_free_append)
    qed
  qed
  have own': "\<forall>a. Some a \<in> set (Some (length h) # hs) \<longrightarrow> Some a \<in> set ?rs'"
  proof (intro allI impI)
    fix a assume "Some a \<in> set (Some (length h) # hs)"
    then consider "a = length h" | "Some a \<in> set hs" by auto
    then show "Some a \<in> set ?rs'"
    proof cases
      case 1
      then show ?thesis using i by (simp add: set_update_memI)
    next
      case 2
      then have "Some a \<in> set ?rs" by (rule own)
      then obtain k where k: "k < length ?rs" "?rs ! k = Some a"
        by (auto simp: in_set_conv_nth)
      with empty have "k \<noteq> i" by auto
      with k have "k < length ?rs'" "?rs' ! k = Some a" by simp_all
      then show ?thesis by (metis nth_mem)
    qed
  qed
  show ?thesis
    unfolding consistent_def using b' inj' cnt' cnt own' by simp
qed


lemma slot_free_update_other:
  "s \<noteq> Some a \<Longrightarrow> slot_free (h[a := x]) s = slot_free h s"
  by (cases s) (simp_all add: slot_free_def)

lemma slot_free_update_same:
  "a < length h \<Longrightarrow> slot_free (h[a := x]) (Some a) = (\<not> inUse x)"
  by (simp add: slot_free_def)

lemma consistent_reuse:
  assumes c: "consistent p h hs" and i: "i < length (resources p)"
    and slot: "resources p ! i = Some a" and idle: "\<not> inUse (h ! a)"
  shows "consistent (p\<lparr>haveResources := haveResources p - 1\<rparr>)
           (h[a := (h ! a)\<lparr>inUse := True\<rparr>]) (Some a # hs)"
proof -
  let ?rs = "resources p"
  let ?h' = "h[a := (h ! a)\<lparr>inUse := True\<rparr>]"
  from c have bound: "\<And>b. Some b \<in> set ?rs \<Longrightarrow> b < length h"
    and inj: "\<And>k j b. k < length ?rs \<Longrightarrow> j < length ?rs \<Longrightarrow> ?rs ! k = Some b \<Longrightarrow> ?rs ! j = Some b \<Longrightarrow> k = j"
    and cnt: "haveResources p = int (free_count h ?rs)"
    and own: "\<And>b. Some b \<in> set hs \<Longrightarrow> Some b \<in> set ?rs"
    by (auto simp: consistent_def)
  have mem: "Some a \<in> set ?rs" using i slot by (metis nth_mem)
  then have a: "a < length h" by (rule bound)
  have cnt': "int (free_count ?h' ?rs) = int (free_count h ?rs) - 1"
  proof (rule claim_count [OF i])
    show "slot_free h (?rs ! i)" using slot idle by (simp add: slot_free_def)
    show "length ?rs = length ?rs" by simp
    show "\<not> slot_free ?h' (?rs ! i)" using slot a by (simp add: slot_free_update_same)
    show "\<forall>k. k < length ?rs \<and> k \<noteq> i \<longrightarrow> slot_free ?h' (?rs ! k) = slot_free h (?rs ! k)"
    proof (intro allI impI, elim conjE)
      fix k assume k: "k < length ?rs" and ne: "k \<noteq> i"
      have "?rs ! k \<noteq> Some a" using inj [OF k i _ slot] ne by auto
      then show "slot_free ?h' (?rs ! k) = slot_free h (?rs ! k)"
        by (rule slot_free_update_other)
    qed
  qed
  show ?thesis
    unfolding consistent_def using bound inj cnt cnt' own mem by auto
qed

lemma consistent_release:
  assumes c: "consistent p h hs" and given: "Some a \<in> set hs" and busy: "inUse (h ! a)"
  shows "consistent (p\<lparr>haveResources := haveResources p + 1\<rparr>)
           (h[a := (h ! a)\<lparr>inUse := False\<rparr>]) hs"
proof -
  let ?rs = "resources p"
  let ?h' = "h[a := (h ! a)\<lparr>inUse := False\<rparr>]"
  from c have bound: "\<And>b. Some b \<in> set ?rs \<Longrightarrow> b < length h"
    and inj: "\<And>k j b. k < length ?rs \<Longrightarrow> j < length ?rs \<Longrightarrow> ?rs ! k = Some b \<Longrightarrow> ?rs ! j = Some b \<Longrightarrow> k = j"
    and cnt: "haveResources p = int (free_count h ?rs)"
    and own: "\<And>b. Some b \<in> set hs \<Longrightarrow> Some b \<in> set ?rs"
    by (auto simp: consistent_def)
  have mem: "Some a \<in> set ?rs" using given by (rule own)
  then have a: "a < length h" by (rule bound)
  from mem obtain i where i: "i < length ?rs" and slot: "?rs ! i = Some a"
    by (auto simp: in_set_conv_nth)
  have "int (free_count h ?rs) = int (free_count ?h' ?rs) - 1"
  proof (rule claim_count [OF i])
    show "slot_free ?h' (?rs ! i)" using slot a by (simp add: slot_free_update_same)
    show "length ?rs = length ?rs" by simp
    show "\<not> slot_free h (?rs ! i)" using slot busy by (simp add: slot_free_def)
    show "\<forall>k. k < length ?rs \<and> k \<noteq> i \<longrightarrow> slot_free h (?rs ! k) = slot_free ?h' (?rs ! k)"
    proof (intro allI impI, elim conjE)
      fix k assume k: "k < length ?rs" and ne: "k \<noteq> i"
      have "?rs ! k \<noteq> Some a" using inj [OF k i _ slot] ne by auto
      then show "slot_free h (?rs ! k) = slot_free ?h' (?rs ! k)"
        by (simp add: slot_free_update_other)
    qed
  qed
  then have cnt': "int (free_count ?h' ?rs) = int (free_count h ?rs) + 1" by simp
  show ?thesis
    unfolding consistent_def using bound inj cnt cnt' own by auto
qed

lemma scan_finds:
  assumes c: "consistent p h hs" and pos: "0 < haveResources p"
  shows "scan h (resources p) 0 \<noteq> NotFound"
proof
  assume "scan h (resources p) 0 = NotFound"
  then have none: "\<forall>k. k < length (resources p) \<longrightarrow> \<not> slot_free h (resources p ! k)"
    using scan_NotFound by fastforce
  from c pos have "0 < free_count h (resources p)" by (simp add: consistent_def)
  from free_count_pos [OF this] none show False by blast
qed

lemma consistent_ghost: "consistent (p\<lparr>fn_new_calls := n\<rparr>) h hs = consistent p h hs"
  by (simp add: consistent_def)

lemma consistent_stop: "consistent (p\<lparr>stop := b\<rparr>) h hs = consistent p h hs"
  by (simp add: consistent_def)

lemma consistent_null: "consistent p h (None # hs) = consistent p h hs"
  by (simp add: consistent_def)

lemma sys_ok_acquire:
  assumes ok: "sys_ok c"
  shows "sys_ok (step Acquire c)"
proof (cases "stop (pl c) \<or> \<not> 0 < haveResources (pl c)")
  case True
  with ok show ?thesis
    by (auto simp: sys_ok_def acquire_def acquire_locked_def consistent_null)
next
  case False
  then have run: "\<not> stop (pl c)" "0 < haveResources (pl c)" by simp_all
  from ok have c: "consistent (pl c) (hp c) (handed c)" by (simp add: sys_ok_def)
  show ?thesis
  proof (cases "scan (hp c) (resources (pl c)) 0")
    case (Create i)
    show ?thesis
    proof (cases "fn_new (pl c) (fn_new_calls (pl c))")
      case None
      with Create run c show ?thesis
        by (simp add: sys_ok_def acquire_def acquire_locked_def consistent_ghost)
    next
      case (Some v)
      with Create run consistent_create [OF c Create] show ?thesis
        by (simp add: sys_ok_def acquire_def acquire_locked_def)
    qed
  next
    case (Reuse i a)
    from scan_Reuse [OF Reuse] have "i < length (resources (pl c))"
      "resources (pl c) ! i = Some a" "\<not> inUse (hp c ! a)" by simp_all
    from consistent_reuse [OF c this] Reuse run show ?thesis
      by (simp add: sys_ok_def acquire_def acquire_locked_def)
  next
    case NotFound
    with scan_finds [OF c run(2)] show ?thesis by simp
  qed
qed

lemma sys_ok_step:
  assumes ok: "sys_ok c" and al: "allowed x c"
  shows "sys_ok (step x c)"
proof (cases x)
  case Acquire
  with ok show ?thesis by (simp only: sys_ok_acquire)
next
  case (Release r)
  from ok have c: "consistent (pl c) (hp c) (handed c)" by (simp add: sys_ok_def)
  show ?thesis
  proof (cases r)
    case None
    with Release c show ?thesis by (simp add: sys_ok_def release_def)
  next
    case (Some a)
    show ?thesis
    proof (cases "inUse (hp c ! a)")
      case False
      with Release Some c show ?thesis by (simp add: sys_ok_def release_def)
    next
      case True
      from al Release Some have "Some a \<in> set (handed c)" by simp
      from consistent_release [OF c this True] Release Some True show ?thesis
        by (simp add: sys_ok_def release_def)
    qed
  qed
next
  case Shutdown
  with ok show ?thesis by (simp add: sys_ok_def shutdown_def consistent_stop)
qed

lemma sys_ok_run: "sys_ok c \<Longrightarrow> admissible xs c \<Longrightarrow> sys_ok (run xs c)"
  by (induction xs arbitrary: c) (simp_all add: sys_ok_step)

lemma sys_ok_initial: "new_pool this n f = Some p \<Longrightarrow> sys_ok (initial p)"
  by (auto simp: new_pool_def Let_def sys_ok_def initial_def consistent_def
      push_nulls_replicate free_count_def slot_free_def split: if_splits)


section \<open>What the calls leave unchanged\<close>

lemma length_resources_step: "length (resources (pl (step x c))) = length (resources (pl c))"
  by (cases x) (auto simp: acquire_def acquire_locked_def release_def shutdown_def
      split: scan_result.splits option.splits)

lemma length_resources_run: "length (resources (pl (run xs c))) = length (resources (pl c))"
  by (induction xs arbitrary: c) (simp_all add: length_resources_step)

lemma admissible_take: "admissible xs c \<Longrightarrow> admissible (take k xs) c"
proof (induction xs arbitrary: k c)
  case Nil
  then show ?case by simp
next
  case (Cons x xs)
  then show ?case by (cases k) simp_all
qed

lemma sys_ok_bounds:
  assumes "sys_ok c"
  shows "0 \<le> haveResources (pl c) \<and> haveResources (pl c) \<le> int (length (resources (pl c)))"
  using assms free_count_le [of "hp c" "resources (pl c)"]
  by (simp add: sys_ok_def consistent_def)

lemma new_pool_length: "new_pool this n f = Some p \<Longrightarrow> length (resources p) = max n 1"
  by (auto simp: new_pool_def Let_def push_nulls_replicate split: if_splits)

lemma new_pool_size: "new_pool this n f = Some p \<Longrightarrow> pool_size p = max n 1"
  by (auto simp: new_pool_def Let_def split: if_splits)

lemma stop_step: "stop (pl c) \<Longrightarrow> stop (pl (step x c))"
  by (cases x) (simp_all add: acquire_def release_def shutdown_def split: option.splits)

lemma stop_run: "stop (pl c) \<Longrightarrow> stop (pl (run xs c))"
  by (induction xs arbitrary: c) (simp_all add: stop_step)

text \<open>
  A call of \<open>acquire\<close> that was suspended in its wait and goes on after \<open>shutdown\<close>
  finds the wait's condition true, tests \<open>stop\<close> and returns \<open>nullptr\<close>, whatever
  \<open>haveResources\<close> is.
\<close>

lemma acquire_locked_stopped: "acquire_locked (shutdown p) h = Returned None (shutdown p) h"
  by (simp add: acquire_locked_def shutdown_def)

section \<open>Evaluation of the examples\<close>

lemmas exec_defs = new_pool_def Let_def INT_MAX_def push_nulls_replicate initial_def
  acquire_def acquire_locked_def release_def shutdown_def resourcesAvailable_def
  resource_factory_function_def throwing_factory_def POOL_SIZE_def test_pool_def
  scan.simps numeral_3_eq_3 numeral_2_eq_2

lemma new_throwing_pool: "new_pool 0 1 throwing_factory = Some throwing_pool"
  by (simp add: exec_defs throwing_pool_def)

lemma new_other_pool: "new_pool 1 POOL_SIZE resource_factory_function = Some other_pool"
  by (simp add: exec_defs other_pool_def)

lemma new_test_pool: "new_pool 0 POOL_SIZE resource_factory_function = Some test_pool"
  by (simp add: exec_defs)

section \<open>The capacity invariant\<close>

text \<open>
  Claim C1.  For every pool that the constructor returns and every finite sequence of
  calls in which each released handle was returned by an earlier \<open>acquire\<close> of this
  pool, \<open>resourcesAvailable\<close> lies between 0 and the capacity of the pool, its member
  \<open>size\<close>, after every prefix of the sequence.  The sequence may contain \<open>shutdown\<close>
  as well.
\<close>

theorem capacity_invariant:
  assumes "new_pool this n f = Some p" and "admissible xs (initial p)" and "k \<le> length xs"
  shows "0 \<le> resourcesAvailable (pl (run (take k xs) (initial p))) \<and>
         resourcesAvailable (pl (run (take k xs) (initial p))) \<le> int (pool_size p)"
proof -
  let ?c = "run (take k xs) (initial p)"
  have "sys_ok ?c"
    using assms(1,2) by (intro sys_ok_run sys_ok_initial admissible_take)
  from sys_ok_bounds [OF this]
  have "0 \<le> haveResources (pl ?c) \<and> haveResources (pl ?c) \<le> int (length (resources (pl (initial p))))"
    by (simp add: length_resources_run)
  then show ?thesis
    using new_pool_length [OF assms(1)] new_pool_size [OF assms(1)]
    by (simp add: resourcesAvailable_def initial_def)
qed

text \<open>
  On the pool of the tests: three calls of \<open>acquire\<close> take the counter to 0, a fourth one
  waits, the resource at address 1 is released twice, and the counter is within bounds.
\<close>

theorem capacity_invariant_witness:
  "new_pool 0 POOL_SIZE resource_factory_function = Some test_pool \<and>
   admissible [Acquire, Acquire, Acquire, Acquire, Release (Some 1), Release (Some 1), Acquire]
     (initial test_pool) \<and>
   resourcesAvailable (pl (run (take 4 [Acquire, Acquire, Acquire, Acquire, Release (Some 1), Release (Some 1), Acquire])
     (initial test_pool))) = 0 \<and>
   0 \<le> resourcesAvailable (pl (run (take 6 [Acquire, Acquire, Acquire, Acquire, Release (Some 1), Release (Some 1), Acquire])
     (initial test_pool))) \<and>
   resourcesAvailable (pl (run (take 6 [Acquire, Acquire, Acquire, Acquire, Release (Some 1), Release (Some 1), Acquire])
     (initial test_pool))) \<le> int (pool_size test_pool)"
proof -
  have adm: "admissible [Acquire, Acquire, Acquire, Acquire, Release (Some 1), Release (Some 1), Acquire]
     (initial test_pool)"
    by (simp add: exec_defs)
  have zero: "resourcesAvailable (pl (run (take 4 [Acquire, Acquire, Acquire, Acquire, Release (Some 1), Release (Some 1), Acquire])
     (initial test_pool))) = 0"
    by (simp add: exec_defs)
  from capacity_invariant [OF new_test_pool adm, of 6] new_test_pool adm zero
  show ?thesis by simp
qed

section \<open>acquire on a stopped pool\<close>

text \<open>
  Claim C5.  \<open>shutdown\<close> sets \<open>stop\<close>, and in every state that any further calls lead to
  after it, whatever the value of \<open>haveResources\<close>, \<open>acquire\<close> returns \<open>nullptr\<close> and
  leaves the pool as it is: the result is not \<open>Blocked\<close>, the call does not wait.
\<close>

theorem acquire_after_shutdown:
  "stop (shutdown p) \<and>
   acquire (pl (run xs (step Shutdown c))) (hp (run xs (step Shutdown c)))
     = Returned None (pl (run xs (step Shutdown c))) (hp (run xs (step Shutdown c)))"
proof -
  have "stop (pl (step Shutdown c))" by (simp add: shutdown_def)
  then have "stop (pl (run xs (step Shutdown c)))" by (rule stop_run)
  then show ?thesis by (simp add: acquire_def shutdown_def)
qed

text \<open>
  On the pool of the tests: one resource is acquired, the pool is shut down, the resource is
  released, so that three resources are available, and \<open>acquire\<close> still answers \<open>nullptr\<close>.
\<close>

theorem acquire_after_shutdown_witness:
  "haveResources (pl (run [Release (Some 0)] (step Shutdown (run [Acquire] (initial test_pool))))) = 3 \<and>
   acquire (pl (run [Release (Some 0)] (step Shutdown (run [Acquire] (initial test_pool)))))
           (hp (run [Release (Some 0)] (step Shutdown (run [Acquire] (initial test_pool)))))
     = Returned None
         \<lparr> self = 0, resources = [Some 0, None, None], pool_size = 3,
           fn_new = resource_factory_function, haveResources = 3, stop = True, fn_new_calls = 1 \<rparr>
         [\<lparr>pool = 0, raw_resource = (), inUse = False\<rparr>]"
proof -
  have e: "run [Release (Some 0)] (step Shutdown (run [Acquire] (initial test_pool)))
      = \<lparr> pl = \<lparr> self = 0, resources = [Some 0, None, None], pool_size = 3,
           fn_new = resource_factory_function, haveResources = 3, stop = True, fn_new_calls = 1 \<rparr>,
          hp = [\<lparr>pool = 0, raw_resource = (), inUse = False\<rparr>], handed = [Some 0] \<rparr>"
    by (simp add: exec_defs)
  note acquire_after_shutdown [of test_pool "[Release (Some 0)]" "run [Acquire] (initial test_pool)",
      THEN conjunct2, unfolded e]
  then show ?thesis unfolding e by simp
qed

section \<open>Construction is lazy\<close>

text \<open>
  Claim C6.  The constructor clamps the capacity to at least 1, so that capacity 0 gives a
  pool of one slot; it has a result for every clamped capacity up to \<open>INT_MAX\<close>; and the
  pool it returns has exactly the clamped number of slots, all empty, \<open>haveResources\<close>
  equal to the clamped capacity, \<open>stop\<close> false, and no factory invocation made.
\<close>

theorem construction:
  "(\<exists>p. new_pool this 0 f = Some p \<and> pool_size p = 1 \<and> resources p = [None]) \<and>
   (max n 1 \<le> INT_MAX \<longrightarrow> new_pool this n f \<noteq> None) \<and>
   (\<forall>p. new_pool this n f = Some p \<longrightarrow>
      pool_size p = max n 1 \<and> length (resources p) = max n 1 \<and>
      (\<forall>s \<in> set (resources p). s = None) \<and>
      haveResources p = int (max n 1) \<and> \<not> stop p \<and> fn_new_calls p = 0 \<and> fn_new p = f)"
  by (auto simp: new_pool_def Let_def INT_MAX_def push_nulls_replicate)

text \<open>The pool of the tests, capacity 3.\<close>

theorem construction_witness:
  "max POOL_SIZE 1 \<le> INT_MAX \<and>
   new_pool 0 POOL_SIZE resource_factory_function = Some test_pool \<and>
   pool_size test_pool = max POOL_SIZE 1 \<and> length (resources test_pool) = max POOL_SIZE 1 \<and>
   set (resources test_pool) = {None} \<and>
   haveResources test_pool = int (max POOL_SIZE 1) \<and> \<not> stop test_pool \<and>
   fn_new_calls test_pool = 0"
proof -
  have small: "max POOL_SIZE 1 \<le> INT_MAX" by (simp add: POOL_SIZE_def INT_MAX_def)
  have slots: "set (resources test_pool) = {None}" by (simp add: test_pool_def)
  from construction [of 0 resource_factory_function POOL_SIZE] new_test_pool small slots
  show ?thesis by simp
qed

section \<open>A factory that throws\<close>

text \<open>
  Claim C8.  When the scan stops at an empty slot and the factory throws, the exception
  leaves \<open>acquire\<close>; and whenever an exception leaves \<open>acquire\<close>, the store is unchanged,
  the slot table is unchanged with the slot that was being claimed still empty, and
  \<open>haveResources\<close>, \<open>stop\<close> and the size are unchanged.
\<close>

theorem factory_failure:
  "(\<not> stop p \<and> 0 < haveResources p \<and> scan h (resources p) 0 = Create i \<and>
      fn_new p (fn_new_calls p) = None
      \<longrightarrow> acquire p h = Threw (p\<lparr>fn_new_calls := Suc (fn_new_calls p)\<rparr>) h) \<and>
   (acquire p h = Threw p' h'
      \<longrightarrow> h' = h \<and> resources p' = resources p \<and> haveResources p' = haveResources p \<and>
          stop p' = stop p \<and> pool_size p' = pool_size p \<and>
          (\<exists>j. scan h (resources p) 0 = Create j \<and> resources p' ! j = None))"
  by (auto simp: acquire_def acquire_locked_def dest: scan_Create
      split: if_splits scan_result.splits option.splits)

text \<open>A pool of capacity 1 whose factory throws.\<close>

theorem factory_failure_witness:
  "\<not> stop throwing_pool \<and> 0 < haveResources throwing_pool \<and>
   scan [] (resources throwing_pool) 0 = Create 0 \<and>
   fn_new throwing_pool (fn_new_calls throwing_pool) = None \<and>
   acquire throwing_pool [] = Threw (throwing_pool\<lparr>fn_new_calls := 1\<rparr>) [] \<and>
   resources (throwing_pool\<lparr>fn_new_calls := 1\<rparr>) = [None] \<and>
   haveResources (throwing_pool\<lparr>fn_new_calls := 1\<rparr>) = 1"
proof -
  have h: "\<not> stop throwing_pool \<and> 0 < haveResources throwing_pool \<and>
      scan [] (resources throwing_pool) 0 = Create 0 \<and>
      fn_new throwing_pool (fn_new_calls throwing_pool) = None"
    by (simp add: exec_defs throwing_pool_def)
  from factory_failure [of throwing_pool "[]" 0, THEN conjunct1, THEN mp, OF h]
  have "acquire throwing_pool [] = Threw (throwing_pool\<lparr>fn_new_calls := Suc (fn_new_calls throwing_pool)\<rparr>) []" .
  with h show ?thesis by (simp add: throwing_pool_def)
qed

section \<open>release is idempotent\<close>

text \<open>
  Claim C3.  Releasing \<open>nullptr\<close>, or a handle whose resource is not in use, changes
  neither the pool nor the store; so a second release of the same handle changes nothing
  after the first.  With capacity 3 and a factory whose first call succeeds: \<open>acquire\<close>
  returns a handle and 2 resources are available, \<open>release\<close> makes it 3, and a second
  \<open>release\<close> of the same handle leaves 3.
\<close>

theorem release_idempotent:
  "release None p h = (p, h) \<and>
   (a < length h \<and> \<not> inUse (h ! a) \<longrightarrow> release (Some a) p h = (p, h)) \<and>
   (a < length h \<longrightarrow>
      release (Some a) (fst (release (Some a) p h)) (snd (release (Some a) p h)) = release (Some a) p h) \<and>
   (new_pool this 3 f = Some p0 \<and> f 0 = Some v \<longrightarrow>
      (let p1 = p0\<lparr>resources := [Some 0, None, None], haveResources := 2, fn_new_calls := 1\<rparr>;
           h1 = [\<lparr>pool = this, raw_resource = v, inUse = True\<rparr>];
           p2 = p1\<lparr>haveResources := 3\<rparr>;
           h2 = [\<lparr>pool = this, raw_resource = v, inUse = False\<rparr>]
       in acquire p0 [] = Returned (Some 0) p1 h1 \<and> resourcesAvailable p1 = 2 \<and>
          release (Some 0) p1 h1 = (p2, h2) \<and> resourcesAvailable p2 = 3 \<and>
          release (Some 0) p2 h2 = (p2, h2)))"
proof (intro conjI impI)
  show "release None p h = (p, h)" by (simp add: release_def)
  show "release (Some a) p h = (p, h)" if "a < length h \<and> \<not> inUse (h ! a)"
    using that by (simp add: release_def)
  show "release (Some a) (fst (release (Some a) p h)) (snd (release (Some a) p h)) = release (Some a) p h"
    if "a < length h"
    using that by (simp add: release_def)
  show "let p1 = p0\<lparr>resources := [Some 0, None, None], haveResources := 2, fn_new_calls := 1\<rparr>;
           h1 = [\<lparr>pool = this, raw_resource = v, inUse = True\<rparr>];
           p2 = p1\<lparr>haveResources := 3\<rparr>;
           h2 = [\<lparr>pool = this, raw_resource = v, inUse = False\<rparr>]
       in acquire p0 [] = Returned (Some 0) p1 h1 \<and> resourcesAvailable p1 = 2 \<and>
          release (Some 0) p1 h1 = (p2, h2) \<and> resourcesAvailable p2 = 3 \<and>
          release (Some 0) p2 h2 = (p2, h2)"
    if "new_pool this 3 f = Some p0 \<and> f 0 = Some v"
    using that by (auto simp: exec_defs)
qed

text \<open>The scenario on the pool of the tests, step by step.\<close>

theorem release_idempotent_witness:
  "new_pool 0 3 resource_factory_function = Some test_pool \<and>
   resource_factory_function 0 = Some () \<and>
   acquire test_pool [] = Returned (Some 0)
      (test_pool\<lparr>resources := [Some 0, None, None], haveResources := 2, fn_new_calls := 1\<rparr>)
      [\<lparr>pool = 0, raw_resource = (), inUse = True\<rparr>] \<and>
   release (Some 0)
      (test_pool\<lparr>resources := [Some 0, None, None], haveResources := 2, fn_new_calls := 1\<rparr>)
      [\<lparr>pool = 0, raw_resource = (), inUse = True\<rparr>]
     = (test_pool\<lparr>resources := [Some 0, None, None], haveResources := 3, fn_new_calls := 1\<rparr>,
        [\<lparr>pool = 0, raw_resource = (), inUse = False\<rparr>]) \<and>
   0 < length [\<lparr>pool = 0, raw_resource = (), inUse = False\<rparr>] \<and>
   \<not> inUse ([\<lparr>pool = 0, raw_resource = (), inUse = False\<rparr>] ! 0) \<and>
   release (Some 0)
      (test_pool\<lparr>resources := [Some 0, None, None], haveResources := 3, fn_new_calls := 1\<rparr>)
      [\<lparr>pool = (0::nat), raw_resource = (), inUse = False\<rparr>]
     = (test_pool\<lparr>resources := [Some 0, None, None], haveResources := 3, fn_new_calls := 1\<rparr>,
        [\<lparr>pool = 0, raw_resource = (), inUse = False\<rparr>])"
proof -
  have a: "acquire test_pool [] = Returned (Some 0)
      (test_pool\<lparr>resources := [Some 0, None, None], haveResources := 2, fn_new_calls := 1\<rparr>)
      [\<lparr>pool = 0, raw_resource = (), inUse = True\<rparr>]"
    by (simp add: exec_defs)
  have r: "release (Some 0)
      (test_pool\<lparr>resources := [Some 0, None, None], haveResources := 2, fn_new_calls := 1\<rparr>)
      [\<lparr>pool = 0, raw_resource = (), inUse = True\<rparr>]
     = (test_pool\<lparr>resources := [Some 0, None, None], haveResources := 3, fn_new_calls := 1\<rparr>,
        [\<lparr>pool = 0, raw_resource = (), inUse = False\<rparr>])"
    by (simp add: exec_defs)
  have n: "new_pool 0 3 resource_factory_function = Some test_pool"
    using new_test_pool by (simp add: POOL_SIZE_def)
  from release_idempotent [of
      "test_pool\<lparr>resources := [Some 0, None, None], haveResources := 3, fn_new_calls := 1\<rparr>"
      "[\<lparr>pool = 0, raw_resource = (), inUse = False\<rparr>]" 0 0 resource_factory_function test_pool "()"]
    a r n
  show ?thesis by (simp add: resource_factory_function_def)
qed

section \<open>The counter is the number of free slots\<close>

text \<open>
  Claim C10.  In every state reached from construction by \<open>acquire\<close>, \<open>release\<close> of a
  handle this pool returned, and \<open>shutdown\<close>, \<open>haveResources\<close> is the number of slots
  that are empty or not in use.  So when \<open>acquire\<close> passes its wait on a pool that is not
  stopped, the scan finds a free slot, and a handle that \<open>acquire\<close> returns is not
  \<open>nullptr\<close>.
\<close>

theorem available_counts_free_slots:
  assumes "new_pool this n f = Some p0" and "admissible xs (initial p0)"
    and "run xs (initial p0) = c"
  shows "haveResources (pl c) = int (free_count (hp c) (resources (pl c))) \<and>
         (\<not> stop (pl c) \<and> 0 < haveResources (pl c) \<longrightarrow>
            scan (hp c) (resources (pl c)) 0 \<noteq> NotFound \<and>
            (\<forall>r p' h'. acquire (pl c) (hp c) = Returned r p' h' \<longrightarrow> r \<noteq> None))"
proof -
  have "sys_ok c"
    using assms by (auto intro: sys_ok_run sys_ok_initial)
  then have c: "consistent (pl c) (hp c) (handed c)" by (simp add: sys_ok_def)
  then have cnt: "haveResources (pl c) = int (free_count (hp c) (resources (pl c)))"
    by (simp add: consistent_def)
  have "scan (hp c) (resources (pl c)) 0 \<noteq> NotFound \<and>
        (\<forall>r p' h'. acquire (pl c) (hp c) = Returned r p' h' \<longrightarrow> r \<noteq> None)"
    if run: "\<not> stop (pl c) \<and> 0 < haveResources (pl c)"
  proof -
    from run have found: "scan (hp c) (resources (pl c)) 0 \<noteq> NotFound"
      using scan_finds [OF c] by simp
    with run show ?thesis
      by (auto simp: acquire_def acquire_locked_def split: scan_result.splits option.splits)
  qed
  with cnt show ?thesis by blast
qed

text \<open>
  On the pool of the tests after two calls of \<open>acquire\<close> and the release of the first
  resource: slot 0 is idle, slot 1 in use, slot 2 empty, and 2 resources are available.
\<close>

theorem available_counts_free_slots_witness:
  "new_pool 0 POOL_SIZE resource_factory_function = Some test_pool \<and>
   admissible [Acquire, Acquire, Release (Some 0), Shutdown, Release (Some 1)] (initial test_pool) \<and>
   run [Acquire, Acquire, Release (Some 0)] (initial test_pool)
     = \<lparr> pl = \<lparr> self = 0, resources = [Some 0, Some 1, None], pool_size = 3,
                fn_new = resource_factory_function, haveResources = 2, stop = False,
                fn_new_calls = 2 \<rparr>,
         hp = [\<lparr>pool = 0, raw_resource = (), inUse = False\<rparr>,
               \<lparr>pool = 0, raw_resource = (), inUse = True\<rparr>],
         handed = [Some 1, Some 0] \<rparr> \<and>
   free_count [\<lparr>pool = 0, raw_resource = (), inUse = False\<rparr>,
               \<lparr>pool = (0::nat), raw_resource = (), inUse = True\<rparr>] [Some 0, Some 1, None] = 2 \<and>
   scan [\<lparr>pool = 0, raw_resource = (), inUse = False\<rparr>,
         \<lparr>pool = (0::nat), raw_resource = (), inUse = True\<rparr>] [Some 0, Some 1, None] 0 = Reuse 0 0"
proof -
  have adm: "admissible [Acquire, Acquire, Release (Some 0)] (initial test_pool)"
    by (simp add: exec_defs)
  have adm2: "admissible [Acquire, Acquire, Release (Some 0), Shutdown, Release (Some 1)] (initial test_pool)"
    by (simp add: exec_defs)
  have r: "run [Acquire, Acquire, Release (Some 0)] (initial test_pool)
     = \<lparr> pl = \<lparr> self = 0, resources = [Some 0, Some 1, None], pool_size = 3,
                fn_new = resource_factory_function, haveResources = 2, stop = False,
                fn_new_calls = 2 \<rparr>,
         hp = [\<lparr>pool = 0, raw_resource = (), inUse = False\<rparr>,
               \<lparr>pool = 0, raw_resource = (), inUse = True\<rparr>],
         handed = [Some 1, Some 0] \<rparr>"
    by (simp add: exec_defs)
  have s: "scan [\<lparr>pool = 0, raw_resource = (), inUse = False\<rparr>,
         \<lparr>pool = (0::nat), raw_resource = (), inUse = True\<rparr>] [Some 0, Some 1, None] 0 = Reuse 0 0"
    by (simp add: scan.simps)
  from available_counts_free_slots [OF new_test_pool adm r] new_test_pool adm2 r s
  show ?thesis by simp
qed

section \<open>acquire claims the first free slot\<close>

text \<open>
  Claim C2 says that in every state with \<open>stop\<close> false and \<open>haveResources\<close> positive
  \<open>acquire\<close> claims the first free slot and returns a handle that is not \<open>nullptr\<close>.
  It does not hold in every such state.  On the pool of the tests, a handle of another pool
  is released to it, which takes the counter to 4, and three calls of \<open>acquire\<close> follow:
  the counter is 1 and no slot is free, and the next \<open>acquire\<close> finds nothing in its scan,
  decrements the counter and returns \<open>nullptr\<close>.  And on a pool of capacity 1 whose
  factory throws, with the counter at 1, the exception leaves \<open>acquire\<close> and no handle
  is returned.
\<close>

theorem acquire_claims_first_free_counterexample:
  "run [Release (Some 0), Acquire, Acquire, Acquire]
       \<lparr> pl = test_pool, hp = [\<lparr>pool = 1, raw_resource = (), inUse = True\<rparr>], handed = [] \<rparr>
     = \<lparr> pl = \<lparr> self = 0, resources = [Some 1, Some 2, Some 3], pool_size = 3,
                fn_new = resource_factory_function, haveResources = 1, stop = False,
                fn_new_calls = 3 \<rparr>,
         hp = [\<lparr>pool = 1, raw_resource = (), inUse = False\<rparr>,
               \<lparr>pool = 0, raw_resource = (), inUse = True\<rparr>,
               \<lparr>pool = 0, raw_resource = (), inUse = True\<rparr>,
               \<lparr>pool = 0, raw_resource = (), inUse = True\<rparr>],
         handed = [Some 3, Some 2, Some 1] \<rparr> \<and>
   free_count [\<lparr>pool = 1, raw_resource = (), inUse = False\<rparr>,
               \<lparr>pool = 0, raw_resource = (), inUse = True\<rparr>,
               \<lparr>pool = 0, raw_resource = (), inUse = True\<rparr>,
               \<lparr>pool = (0::nat), raw_resource = (), inUse = True\<rparr>]
              [Some 1, Some 2, Some 3] = 0 \<and>
   acquire \<lparr> self = 0, resources = [Some 1, Some 2, Some 3], pool_size = 3,
             fn_new = resource_factory_function, haveResources = 1, stop = False,
             fn_new_calls = 3 \<rparr>
           [\<lparr>pool = 1, raw_resource = (), inUse = False\<rparr>,
            \<lparr>pool = 0, raw_resource = (), inUse = True\<rparr>,
            \<lparr>pool = 0, raw_resource = (), inUse = True\<rparr>,
            \<lparr>pool = 0, raw_resource = (), inUse = True\<rparr>]
     = Returned None
         \<lparr> self = 0, resources = [Some 1, Some 2, Some 3], pool_size = 3,
           fn_new = resource_factory_function, haveResources = 0, stop = False,
           fn_new_calls = 3 \<rparr>
         [\<lparr>pool = 1, raw_resource = (), inUse = False\<rparr>,
          \<lparr>pool = 0, raw_resource = (), inUse = True\<rparr>,
          \<lparr>pool = 0, raw_resource = (), inUse = True\<rparr>,
          \<lparr>pool = 0, raw_resource = (), inUse = True\<rparr>] \<and>
   \<not> stop throwing_pool \<and> 0 < haveResources throwing_pool \<and>
   acquire throwing_pool [] = Threw (throwing_pool\<lparr>fn_new_calls := 1\<rparr>) []"
  by (simp add: exec_defs throwing_pool_def free_count_def slot_free_def)

text \<open>
  Claim C2, amended.  In every state with \<open>stop\<close> false and \<open>haveResources\<close> positive
  in which the slots refer to resources of the store and some slot is free, there is a
  first free slot \<open>i\<close> in index order, and \<open>acquire\<close> claims it.  If slot \<open>i\<close> is empty
  the factory is invoked exactly once: with its value \<open>v\<close> a new resource holding \<open>v\<close>,
  marked in use, is stored in slot \<open>i\<close>; when the factory throws instead, the exception
  leaves \<open>acquire\<close> and no handle is returned.  If slot \<open>i\<close> holds a resource, that
  resource is marked in use and the factory is not invoked.  Whenever a handle is returned,
  \<open>haveResources\<close> has gone down by exactly 1 and the handle is the resource of slot
  \<open>i\<close>, not \<open>nullptr\<close>.
\<close>

theorem acquire_claims_first_free:
  assumes "\<not> stop p" and "0 < haveResources p"
    and "\<forall>a. Some a \<in> set (resources p) \<longrightarrow> a < length h"
    and "\<exists>k < length (resources p). slot_free h (resources p ! k)"
  shows "\<exists>i < length (resources p).
           slot_free h (resources p ! i) \<and> (\<forall>k < i. \<not> slot_free h (resources p ! k)) \<and>
           (case resources p ! i of
              None \<Rightarrow>
                (case fn_new p (fn_new_calls p) of
                   Some v \<Rightarrow>
                     acquire p h =
                       Returned (Some (length h))
                         (p\<lparr>resources := (resources p)[i := Some (length h)],
                            haveResources := haveResources p - 1,
                            fn_new_calls := fn_new_calls p + 1\<rparr>)
                         (h @ [\<lparr>pool = self p, raw_resource = v, inUse = True\<rparr>])
                 | None \<Rightarrow>
                     acquire p h = Threw (p\<lparr>fn_new_calls := fn_new_calls p + 1\<rparr>) h)
            | Some a \<Rightarrow>
                a < length h \<and>
                acquire p h =
                  Returned (Some a)
                    (p\<lparr>haveResources := haveResources p - 1\<rparr>)
                    (h[a := (h ! a)\<lparr>inUse := True\<rparr>]))"
proof -
  have found: "scan h (resources p) 0 \<noteq> NotFound"
  proof
    assume "scan h (resources p) 0 = NotFound"
    from scan_NotFound [OF this] assms(4) show False by auto
  qed
  show ?thesis
  proof (cases "scan h (resources p) 0")
    case (Create i)
    from scan_Create [OF Create]
    have i: "i < length (resources p)" and empty: "resources p ! i = None"
      and first: "\<forall>k < i. \<not> slot_free h (resources p ! k)" by simp_all
    have "slot_free h (resources p ! i)" using empty by (simp add: slot_free_def)
    with i first empty Create assms(1,2) show ?thesis
      by (intro exI [of _ i]) (simp add: acquire_def acquire_locked_def split: option.splits)
  next
    case (Reuse i a)
    from scan_Reuse [OF Reuse]
    have i: "i < length (resources p)" and slot: "resources p ! i = Some a"
      and idle: "\<not> inUse (h ! a)"
      and first: "\<forall>k < i. \<not> slot_free h (resources p ! k)" by simp_all
    have "Some a \<in> set (resources p)" using i slot by (metis nth_mem)
    with assms(3) have a: "a < length h" by simp
    have "slot_free h (resources p ! i)" using slot idle by (simp add: slot_free_def)
    with i first slot a Reuse assms(1,2) show ?thesis
      by (intro exI [of _ i]) (simp add: acquire_def acquire_locked_def)
  next
    case NotFound
    with found show ?thesis by simp
  qed
qed

text \<open>
  On the pool of the tests, with slot 0 idle, slot 1 in use and slot 2 empty: \<open>acquire\<close>
  hands out the resource of slot 0 again.
\<close>

theorem acquire_claims_first_free_witness:
  "\<not> stop \<lparr> self = 0, resources = [Some 0, Some 1, None], pool_size = 3,
             fn_new = resource_factory_function, haveResources = 2, stop = False,
             fn_new_calls = 2 \<rparr> \<and>
   slot_free [\<lparr>pool = 0, raw_resource = (), inUse = False\<rparr>,
              \<lparr>pool = (0::nat), raw_resource = (), inUse = True\<rparr>] ([Some 0, Some 1, None] ! 0) \<and>
   run [Acquire, Acquire, Release (Some 0)] (initial test_pool)
     = \<lparr> pl = \<lparr> self = 0, resources = [Some 0, Some 1, None], pool_size = 3,
                fn_new = resource_factory_function, haveResources = 2, stop = False,
                fn_new_calls = 2 \<rparr>,
         hp = [\<lparr>pool = 0, raw_resource = (), inUse = False\<rparr>,
               \<lparr>pool = 0, raw_resource = (), inUse = True\<rparr>],
         handed = [Some 1, Some 0] \<rparr> \<and>
   acquire \<lparr> self = 0, resources = [Some 0, Some 1, None], pool_size = 3,
                fn_new = resource_factory_function, haveResources = 2, stop = False,
                fn_new_calls = 2 \<rparr>
           [\<lparr>pool = 0, raw_resource = (), inUse = False\<rparr>,
            \<lparr>pool = 0, raw_resource = (), inUse = True\<rparr>]
     = Returned (Some 0)
         \<lparr> self = 0, resources = [Some 0, Some 1, None], pool_size = 3,
           fn_new = resource_factory_function, haveResources = 1, stop = False,
           fn_new_calls = 2 \<rparr>
         [\<lparr>pool = 0, raw_resource = (), inUse = True\<rparr>,
          \<lparr>pool = 0, raw_resource = (), inUse = True\<rparr>]"
proof -
  let ?p = "\<lparr> self = 0, resources = [Some 0, Some 1, None], pool_size = 3,
                fn_new = resource_factory_function, haveResources = 2, stop = False,
                fn_new_calls = 2 \<rparr>"
  let ?h = "[\<lparr>pool = 0::nat, raw_resource = (), inUse = False\<rparr>,
            \<lparr>pool = 0, raw_resource = (), inUse = True\<rparr>]"
  have r: "run [Acquire, Acquire, Release (Some 0)] (initial test_pool)
     = \<lparr> pl = ?p, hp = ?h, handed = [Some 1, Some 0] \<rparr>"
    by (simp add: exec_defs)
  have go: "\<not> stop ?p" "0 < haveResources ?p" by simp_all
  have valid: "\<forall>a. Some a \<in> set (resources ?p) \<longrightarrow> a < length ?h" by auto
  have free0: "slot_free ?h (resources ?p ! 0)" by (simp add: slot_free_def)
  then have some: "\<exists>k < length (resources ?p). slot_free ?h (resources ?p ! k)"
    by (intro exI [of _ 0]) simp
  from acquire_claims_first_free [OF go valid some]
  obtain i where m: "\<forall>k < i. \<not> slot_free ?h (resources ?p ! k)"
    and res: "(case resources ?p ! i of
              None \<Rightarrow>
                (case fn_new ?p (fn_new_calls ?p) of
                   Some v \<Rightarrow>
                     acquire ?p ?h =
                       Returned (Some (length ?h))
                         (?p\<lparr>resources := (resources ?p)[i := Some (length ?h)],
                            haveResources := haveResources ?p - 1,
                            fn_new_calls := fn_new_calls ?p + 1\<rparr>)
                         (?h @ [\<lparr>pool = self ?p, raw_resource = v, inUse = True\<rparr>])
                 | None \<Rightarrow>
                     acquire ?p ?h = Threw (?p\<lparr>fn_new_calls := fn_new_calls ?p + 1\<rparr>) ?h)
            | Some a \<Rightarrow>
                a < length ?h \<and>
                acquire ?p ?h =
                  Returned (Some a)
                    (?p\<lparr>haveResources := haveResources ?p - 1\<rparr>)
                    (?h[a := (?h ! a)\<lparr>inUse := True\<rparr>]))"
    by blast
  from free0 m have "i = 0" by (metis not_gr_zero)
  with res have "acquire ?p ?h = Returned (Some 0) (?p\<lparr>haveResources := haveResources ?p - 1\<rparr>)
                    (?h[0 := (?h ! 0)\<lparr>inUse := True\<rparr>])"
    by simp
  with r free0 show ?thesis by simp
qed

section \<open>release of a handle of another pool\<close>

text \<open>
  Claim C4 says that \<open>release\<close> with a handle of another pool changes nothing.  It does
  not hold: \<open>release\<close> never reads the back reference \<open>pool\<close>.  Two pools of capacity 3
  share the store; the second pool hands out the resource at address 0; releasing that
  handle to the first pool, which has given out nothing and has 3 resources available,
  clears the flag of the other pool's resource and takes the first pool's counter to 4.
\<close>

theorem release_foreign_counterexample:
  "new_pool 0 POOL_SIZE resource_factory_function = Some test_pool \<and>
   new_pool 1 POOL_SIZE resource_factory_function = Some other_pool \<and>
   acquire other_pool [] =
     Returned (Some 0)
       (other_pool\<lparr>resources := [Some 0, None, None], haveResources := 2, fn_new_calls := 1\<rparr>)
       [\<lparr>pool = 1, raw_resource = (), inUse = True\<rparr>] \<and>
   Some 0 \<notin> set (resources test_pool) \<and>
   pool ([\<lparr>pool = 1, raw_resource = (), inUse = True\<rparr>] ! 0) \<noteq> self test_pool \<and>
   release (Some 0) test_pool [\<lparr>pool = 1, raw_resource = (), inUse = True\<rparr>] =
     (test_pool\<lparr>haveResources := 4\<rparr>, [\<lparr>pool = 1, raw_resource = (), inUse = False\<rparr>]) \<and>
   release (Some 0) test_pool [\<lparr>pool = 1, raw_resource = (), inUse = True\<rparr>] \<noteq>
     (test_pool, [\<lparr>pool = 1, raw_resource = (), inUse = True\<rparr>]) \<and>
   resourcesAvailable test_pool = 3 \<and>
   resourcesAvailable (fst (release (Some 0) test_pool [\<lparr>pool = 1, raw_resource = (), inUse = True\<rparr>])) = 4"
  by (simp add: new_test_pool new_other_pool)
     (simp add: exec_defs other_pool_def)

text \<open>
  Claim C4, amended.  For a handle to a resource that is none of the pool's slots,
  \<open>release\<close> leaves the pool's slot table and the resources of its slots unchanged.
  The counter and the store are unchanged when the resource behind the handle is not in
  use; when it is in use, \<open>release\<close> clears its flag and increments the pool's
  \<open>haveResources\<close> by 1 (the counter is an \<open>int\<close>: it is taken below \<open>INT_MAX\<close>).
\<close>

theorem release_foreign:
  assumes "a < length h" and "Some a \<notin> set (resources p)"
    and "haveResources p < int INT_MAX"
  shows "resources (fst (release (Some a) p h)) = resources p \<and>
         (\<forall>b. Some b \<in> set (resources p) \<longrightarrow> snd (release (Some a) p h) ! b = h ! b) \<and>
         (\<not> inUse (h ! a) \<longrightarrow> release (Some a) p h = (p, h)) \<and>
         (inUse (h ! a) \<longrightarrow>
            release (Some a) p h =
              (p\<lparr>haveResources := haveResources p + 1\<rparr>, h[a := (h ! a)\<lparr>inUse := False\<rparr>]))"
proof -
  have "\<forall>b. Some b \<in> set (resources p) \<longrightarrow> a \<noteq> b" using assms by auto
  then show ?thesis by (simp add: release_def)
qed

text \<open>The first pool of the example above and the handle of the second.\<close>

theorem release_foreign_witness:
  "0 < length [\<lparr>pool = 1::nat, raw_resource = (), inUse = True\<rparr>] \<and>
   Some 0 \<notin> set (resources test_pool) \<and>
   haveResources test_pool < int INT_MAX \<and>
   inUse ([\<lparr>pool = 1, raw_resource = (), inUse = True\<rparr>] ! 0) \<and>
   release (Some 0) test_pool [\<lparr>pool = 1, raw_resource = (), inUse = True\<rparr>] =
     (test_pool\<lparr>haveResources := 4\<rparr>, [\<lparr>pool = 1, raw_resource = (), inUse = False\<rparr>]) \<and>
   resources (fst (release (Some 0) test_pool [\<lparr>pool = 1, raw_resource = (), inUse = True\<rparr>]))
     = [None, None, None]"
proof -
  have f: "Some 0 \<notin> set (resources test_pool)" by (simp add: test_pool_def)
  have b: "haveResources test_pool < int INT_MAX" by (simp add: test_pool_def INT_MAX_def)
  have v: "0 < length [\<lparr>pool = 1::nat, raw_resource = (), inUse = True\<rparr>]" by simp
  from release_foreign [OF v f b] v f b
  show ?thesis by (simp add: test_pool_def)
qed

section \<open>Factory invocations and instances\<close>

lemma fn_new_step: "fn_new (pl (step x c)) = fn_new (pl c)"
  by (cases x) (auto simp: acquire_def acquire_locked_def release_def shutdown_def
      split: scan_result.splits option.splits)

lemma fn_new_run: "fn_new (pl (run xs c)) = fn_new (pl c)"
  by (induction xs arbitrary: c) (simp_all add: fn_new_step)

lemma constructed_Suc:
  "constructed f (Suc m) = constructed f m + (if f m \<noteq> None then 1 else 0)"
  by (simp add: constructed_def)

lemma constructed_all: "\<forall>k. f k \<noteq> None \<Longrightarrow> constructed f m = m"
  by (induction m) (simp_all add: constructed_Suc, simp add: constructed_def)

lemma instantiated_le: "instantiated rs \<le> length rs"
  by (simp add: instantiated_def)

lemma instantiated_update:
  "i < length rs \<Longrightarrow> rs ! i = None \<Longrightarrow> instantiated (rs[i := Some a]) = Suc (instantiated rs)"
proof (induction rs arbitrary: i)
  case Nil
  then show ?case by simp
next
  case (Cons r rs)
  then show ?case by (cases i) (simp_all add: instantiated_def)
qed

lemma built_ok_step: "built_ok c \<Longrightarrow> built_ok (step x c)"
proof (cases x)
  case Acquire
  assume ok: "built_ok c"
  show ?thesis
  proof (cases "scan (hp c) (resources (pl c)) 0")
    case (Create i)
    from scan_Create [OF Create]
    have "i < length (resources (pl c))" "resources (pl c) ! i = None" by simp_all
    with ok Acquire Create show ?thesis
      by (auto simp: built_ok_def acquire_def acquire_locked_def constructed_Suc
          instantiated_update split: option.splits)
  next
    case (Reuse i a)
    with ok Acquire show ?thesis
      by (auto simp: built_ok_def acquire_def acquire_locked_def)
  next
    case NotFound
    with ok Acquire show ?thesis
      by (auto simp: built_ok_def acquire_def acquire_locked_def)
  qed
next
  case (Release r)
  assume "built_ok c"
  with Release show ?thesis
    by (auto simp: built_ok_def release_def split: option.splits)
next
  case Shutdown
  assume "built_ok c"
  with Shutdown show ?thesis by (simp add: built_ok_def shutdown_def)
qed

lemma built_ok_run: "built_ok c \<Longrightarrow> built_ok (run xs c)"
  by (induction xs arbitrary: c) (simp_all add: built_ok_step)

lemma built_ok_initial: "new_pool this n f = Some p \<Longrightarrow> built_ok (initial p)"
  by (auto simp: new_pool_def Let_def built_ok_def initial_def constructed_def
      instantiated_def push_nulls_replicate split: if_splits)

lemma new_pool_fn_new: "new_pool this n f = Some p \<Longrightarrow> fn_new p = f"
  by (auto simp: new_pool_def Let_def split: if_splits)

lemma slot_kept_step:
  "i < length (resources (pl c)) \<Longrightarrow> resources (pl c) ! i = Some a \<Longrightarrow>
   resources (pl (step x c)) ! i = Some a"
proof (cases x)
  case Acquire
  assume i: "i < length (resources (pl c))" and s: "resources (pl c) ! i = Some a"
  show ?thesis
  proof (cases "scan (hp c) (resources (pl c)) 0")
    case (Create j)
    from scan_Create [OF Create] s have "j \<noteq> i" by auto
    with i s Acquire Create show ?thesis
      by (auto simp: acquire_def acquire_locked_def split: option.splits)
  next
    case (Reuse j b)
    with s Acquire show ?thesis by (auto simp: acquire_def acquire_locked_def)
  next
    case NotFound
    with s Acquire show ?thesis by (auto simp: acquire_def acquire_locked_def)
  qed
next
  case (Release r)
  assume "resources (pl c) ! i = Some a"
  with Release show ?thesis by (auto simp: release_def split: option.splits)
next
  case Shutdown
  assume "resources (pl c) ! i = Some a"
  with Shutdown show ?thesis by (simp add: shutdown_def)
qed

lemma slot_kept_run:
  "i < length (resources (pl c)) \<Longrightarrow> resources (pl c) ! i = Some a \<Longrightarrow>
   resources (pl (run ys c)) ! i = Some a"
proof (induction ys arbitrary: c)
  case Nil
  then show ?case by simp
next
  case (Cons y ys)
  then show ?case by (simp add: slot_kept_step length_resources_step)
qed

lemma acquire_reuses:
  assumes c: "consistent p h hs" and mem: "Some a \<in> set (resources p)"
    and acq: "acquire p h = Returned (Some a) p' h'"
  shows "fn_new_calls p' = fn_new_calls p \<and> resources p' = resources p \<and>
         raw_resource (h' ! a) = raw_resource (h ! a)"
proof -
  from c mem have a: "a < length h" by (simp add: consistent_def)
  show ?thesis
  proof (cases "scan h (resources p) 0")
    case (Create j)
    with acq a show ?thesis
      by (auto simp: acquire_def acquire_locked_def split: if_splits option.splits)
  next
    case (Reuse j b)
    with acq a show ?thesis
      by (auto simp: acquire_def acquire_locked_def split: if_splits)
  next
    case NotFound
    with acq show ?thesis
      by (auto simp: acquire_def acquire_locked_def split: if_splits)
  qed
qed

text \<open>
  Claim C7 says that the factory is invoked at most \<open>N\<close> times.  It does not hold for a
  factory that throws: the exception leaves the slot empty, and the next \<open>acquire\<close>
  invokes the factory for the same slot again.  A pool of capacity 1 whose factory throws
  has invoked it twice after two calls of \<open>acquire\<close>.
\<close>

theorem factory_calls_counterexample:
  "new_pool 0 1 throwing_factory = Some throwing_pool \<and>
   admissible [Acquire, Acquire] (initial throwing_pool) \<and>
   fn_new_calls (pl (run [Acquire, Acquire] (initial throwing_pool))) = 2 \<and>
   pool_size throwing_pool = 1 \<and>
   \<not> fn_new_calls (pl (run [Acquire, Acquire] (initial throwing_pool))) \<le> pool_size throwing_pool"
  by (simp add: new_throwing_pool) (simp add: exec_defs throwing_pool_def)

text \<open>
  Claim C7, amended.  For every pool that the constructor returns and every admissible
  sequence of calls, the factory has returned an instance at most as many times as the
  capacity of the pool, so a factory that never throws has been invoked at most that many
  times.  A slot that holds an instance holds the same one after any further calls, and an
  \<open>acquire\<close> that returns it does not invoke the factory and leaves the instance as it is.
\<close>

theorem instances_bounded:
  assumes "new_pool this n f = Some p0" and "admissible xs (initial p0)"
    and "run xs (initial p0) = c"
  shows "constructed f (fn_new_calls (pl c)) \<le> pool_size p0 \<and>
         ((\<forall>k. f k \<noteq> None) \<longrightarrow> fn_new_calls (pl c) \<le> pool_size p0) \<and>
         (\<forall>i a. i < length (resources (pl c)) \<and> resources (pl c) ! i = Some a \<longrightarrow>
            (\<forall>ys. resources (pl (run ys c)) ! i = Some a) \<and>
            (\<forall>p' h'. acquire (pl c) (hp c) = Returned (Some a) p' h' \<longrightarrow>
               fn_new_calls p' = fn_new_calls (pl c) \<and> resources p' = resources (pl c) \<and>
               raw_resource (h' ! a) = raw_resource (hp c ! a)))"
proof -
  have f: "fn_new (pl c) = f"
    using assms(1,3) fn_new_run [of xs "initial p0"] new_pool_fn_new [OF assms(1)]
    by (simp add: initial_def)
  have len: "length (resources (pl c)) = pool_size p0"
    using assms(1,3) length_resources_run [of xs "initial p0"] new_pool_length [OF assms(1)]
      new_pool_size [OF assms(1)]
    by (simp add: initial_def)
  have "built_ok c"
    using assms(1,3) built_ok_run [OF built_ok_initial] by blast
  then have eq: "constructed f (fn_new_calls (pl c)) = instantiated (resources (pl c))"
    using f by (simp add: built_ok_def)
  then have bound: "constructed f (fn_new_calls (pl c)) \<le> pool_size p0"
    using instantiated_le [of "resources (pl c)"] len by simp
  have total: "(\<forall>k. f k \<noteq> None) \<longrightarrow> fn_new_calls (pl c) \<le> pool_size p0"
    using bound by (auto simp: constructed_all)
  have "sys_ok c"
    using assms by (auto intro: sys_ok_run sys_ok_initial)
  then have c: "consistent (pl c) (hp c) (handed c)" by (simp add: sys_ok_def)
  have reuse: "(\<forall>ys. resources (pl (run ys c)) ! i = Some a) \<and>
            (\<forall>p' h'. acquire (pl c) (hp c) = Returned (Some a) p' h' \<longrightarrow>
               fn_new_calls p' = fn_new_calls (pl c) \<and> resources p' = resources (pl c) \<and>
               raw_resource (h' ! a) = raw_resource (hp c ! a))"
    if s: "i < length (resources (pl c)) \<and> resources (pl c) ! i = Some a" for i a
  proof -
    from s have mem: "Some a \<in> set (resources (pl c))" by (metis nth_mem)
    from s have "\<forall>ys. resources (pl (run ys c)) ! i = Some a"
      by (simp add: slot_kept_run)
    with acquire_reuses [OF c mem] show ?thesis by blast
  qed
  from bound total reuse show ?thesis by blast
qed


text \<open>
  On the pool of the tests: three calls of \<open>acquire\<close> with a release after each of the
  first two invoke the factory once.
\<close>

theorem instances_bounded_witness:
  "new_pool 0 POOL_SIZE resource_factory_function = Some test_pool \<and>
   admissible [Acquire, Release (Some 0), Acquire, Release (Some 0), Acquire] (initial test_pool) \<and>
   run [Acquire, Release (Some 0), Acquire, Release (Some 0), Acquire] (initial test_pool)
     = \<lparr> pl = \<lparr> self = 0, resources = [Some 0, None, None], pool_size = 3,
                fn_new = resource_factory_function, haveResources = 2, stop = False,
                fn_new_calls = 1 \<rparr>,
         hp = [\<lparr>pool = 0, raw_resource = (), inUse = True\<rparr>],
         handed = [Some 0, Some 0, Some 0] \<rparr> \<and>
   constructed resource_factory_function 1 \<le> pool_size test_pool"
proof -
  have adm: "admissible [Acquire, Release (Some 0), Acquire, Release (Some 0), Acquire] (initial test_pool)"
    by (simp add: exec_defs)
  have r: "run [Acquire, Release (Some 0), Acquire, Release (Some 0), Acquire] (initial test_pool)
     = \<lparr> pl = \<lparr> self = 0, resources = [Some 0, None, None], pool_size = 3,
                fn_new = resource_factory_function, haveResources = 2, stop = False,
                fn_new_calls = 1 \<rparr>,
         hp = [\<lparr>pool = 0, raw_resource = (), inUse = True\<rparr>],
         handed = [Some 0, Some 0, Some 0] \<rparr>"
    by (simp add: exec_defs)
  from instances_bounded [OF new_test_pool adm r, THEN conjunct1] new_test_pool adm r
  show ?thesis by simp
qed

end
